theory Spec2Isabelle
  imports Main "HOL-Library.Sublist" "HOL-Library.Multiset"
begin

section \<open>Python strings\<close>

text \<open>
  A Python \<^verbatim>\<open>str\<close> is a sequence of Unicode code points. A code point is modelled as
  a natural number and a string as a list of code points, so that the whitespace that
  \<^verbatim>\<open>str.strip()\<close> removes can be listed in full. \<open>str\<close> embeds a literal.
\<close>

type_synonym pychar = nat
type_synonym pystr = "pychar list"

definition str :: "string \<Rightarrow> pystr" where
  "str cs = map of_char cs"

text \<open>The two brace characters: \<^verbatim>\<open>{\<close> is U+007B and \<^verbatim>\<open>}\<close> is U+007D.\<close>

definition LB :: pychar where
  "LB = 123"

definition RB :: pychar where
  "RB = 125"

text \<open>
  \<^verbatim>\<open>str.isspace\<close> of CPython 3 on one code point: the characters that
  \<^verbatim>\<open>str.strip()\<close> without an argument removes.
\<close>

definition is_space :: "pychar \<Rightarrow> bool" where
  "is_space c \<longleftrightarrow>
     (9 \<le> c \<and> c \<le> 13) \<or> (28 \<le> c \<and> c \<le> 32) \<or> c = 133 \<or> c = 160 \<or> c = 5760 \<or>
     (8192 \<le> c \<and> c \<le> 8202) \<or> c = 8232 \<or> c = 8233 \<or> c = 8239 \<or> c = 8287 \<or>
     c = 12288"

text \<open>\<^verbatim>\<open>s.strip()\<close>: leading and trailing whitespace removed.\<close>

definition strip :: "pystr \<Rightarrow> pystr" where
  "strip s = rev (dropWhile is_space (rev (dropWhile is_space s)))"

section \<open>The regular expression of \<^verbatim>\<open>extract_variables\<close>\<close>

text \<open>
  \<^verbatim>\<open>re.findall(r'{{([^}]+)}}', template)\<close> scans the template from left to right.
  At a position it matches when the text there is \<^verbatim>\<open>{{\<close>, then a run of characters
  other than \<^verbatim>\<open>}\<close>, then \<^verbatim>\<open>}}\<close>. The run is greedy, and giving back a character
  of it cannot help (the character given back is not \<^verbatim>\<open>}\<close>), so the run is the
  longest one, and it must not be empty. After a match the scan goes on behind the
  closing braces; where there is no match it goes on one character further. The result
  is the list of the captured runs, in the order of the matches.
\<close>

function findall :: "pystr \<Rightarrow> pystr list" where
  "findall [] = []"
| "findall (c # cs) =
     (if prefix [LB, LB] (c # cs) \<and>
         takeWhile (\<lambda>x. x \<noteq> RB) (drop 2 (c # cs)) \<noteq> [] \<and>
         prefix [RB, RB] (dropWhile (\<lambda>x. x \<noteq> RB) (drop 2 (c # cs)))
      then takeWhile (\<lambda>x. x \<noteq> RB) (drop 2 (c # cs)) #
           findall (drop 2 (dropWhile (\<lambda>x. x \<noteq> RB) (drop 2 (c # cs))))
      else findall cs)"
  by pat_completeness auto
termination
proof (relation "measure length")
  show "wf (measure length)" by simp
next
  fix c :: pychar and cs :: pystr
  have "length (dropWhile (\<lambda>x. x \<noteq> RB) (drop 2 (c # cs))) \<le> length (drop 2 (c # cs))"
    by (rule length_dropWhile_le)
  then show "(drop 2 (dropWhile (\<lambda>x. x \<noteq> RB) (drop 2 (c # cs))), c # cs) \<in> measure length"
    by simp
next
  fix c :: pychar and cs :: pystr
  show "(cs, c # cs) \<in> measure length" by simp
qed

text \<open>
  \<^verbatim>\<open>extract_variables\<close>: every match is stripped and added to a set.
\<close>

definition extract_variables :: "pystr \<Rightarrow> pystr set" where
  "extract_variables template = set (map strip (findall template))"

section \<open>\<^verbatim>\<open>str.replace\<close> and \<^verbatim>\<open>format_template\<close>\<close>

text \<open>
  \<^verbatim>\<open>s.replace(old, new)\<close> replaces the occurrences of \<open>old\<close> from left to right,
  going on behind each occurrence it has replaced. With an empty \<open>old\<close> Python puts
  \<open>new\<close> before every character and at the end.
\<close>

function replace_scan :: "pystr \<Rightarrow> pystr \<Rightarrow> pystr \<Rightarrow> pystr" where
  "replace_scan old new [] = []"
| "replace_scan old new (c # cs) =
     (if old \<noteq> [] \<and> prefix old (c # cs)
      then new @ replace_scan old new (drop (length old) (c # cs))
      else c # replace_scan old new cs)"
  by pat_completeness auto
termination
  by (relation "measure (\<lambda>(old, new, s). length s)") (auto simp: neq_Nil_conv)

definition str_replace :: "pystr \<Rightarrow> pystr \<Rightarrow> pystr \<Rightarrow> pystr" where
  "str_replace old new s =
     (if old = [] then new @ concat (map (\<lambda>c. c # new) s) else replace_scan old new s)"

text \<open>The text \<^verbatim>\<open>'{{' + var_name + '}}'\<close> that \<^verbatim>\<open>format_template\<close> looks for.\<close>

definition placeholder :: "pystr \<Rightarrow> pystr" where
  "placeholder var_name = [LB, LB] @ var_name @ [RB, RB]"

text \<open>
  \<^verbatim>\<open>format_template\<close>: the dictionary is the list of its items in iteration order
  (a Python dictionary keeps insertion order and has every key once). The loop replaces
  in the text that the entries before have produced.
\<close>

fun format_template :: "pystr \<Rightarrow> (pystr \<times> pystr) list \<Rightarrow> pystr" where
  "format_template formatted [] = formatted"
| "format_template formatted ((var_name, var_value) # variables_dict) =
     format_template (str_replace (placeholder var_name) var_value formatted) variables_dict"

section \<open>What the specification says, stated without the scans\<close>

text \<open>
  An occurrence of the pattern in \<open>s\<close>: \<open>s\<close> is \<open>pre\<close>, then \<^verbatim>\<open>{{\<close>, then a
  non-empty \<open>inner\<close> without \<^verbatim>\<open>}\<close>, then \<^verbatim>\<open>}}\<close>, then \<open>post\<close>.
\<close>

definition occurrence :: "pystr \<Rightarrow> pystr \<Rightarrow> pystr \<Rightarrow> pystr \<Rightarrow> bool" where
  "occurrence s pre inner post \<longleftrightarrow>
     s = pre @ [LB, LB] @ inner @ [RB, RB] @ post \<and> inner \<noteq> [] \<and> RB \<notin> set inner"

text \<open>
  A match of the pattern in \<open>s\<close> is an occurrence whose inner text is a maximal run: no
  occurrence with the same closing braces begins further left. (\<^verbatim>\<open>{{a{{b}}\<close> has the
  occurrences \<^verbatim>\<open>a{{b\<close> and \<^verbatim>\<open>b\<close> and the one match \<^verbatim>\<open>a{{b\<close>.)
\<close>

definition is_match :: "pystr \<Rightarrow> pystr \<Rightarrow> pystr \<Rightarrow> pystr \<Rightarrow> bool" where
  "is_match s pre inner post \<longleftrightarrow>
     occurrence s pre inner post \<and>
     \<not> (\<exists>pre' inner'. occurrence s pre' inner' post \<and> length pre' < length pre)"

text \<open>
  The same matches, described as the documentation of \<^verbatim>\<open>re.findall\<close> does: the
  occurrences that no occurrence beginning further left overlaps.
\<close>

definition overlapped :: "pystr \<Rightarrow> pystr \<Rightarrow> bool" where
  "overlapped s pre \<longleftrightarrow>
     (\<exists>pre' inner' post'. occurrence s pre' inner' post' \<and>
        length pre' < length pre \<and> length pre < length pre' + length inner' + 4)"

text \<open>
  \<open>replaced old new s r\<close>: \<open>r\<close> is \<open>s\<close> with every occurrence of \<open>old\<close> replaced by
  \<open>new\<close>, the occurrences taken from the left and not overlapping. Either \<open>old\<close> does
  not occur in \<open>s\<close>, or \<open>s\<close> is split at the first occurrence of \<open>old\<close> (there is none
  that begins before it) and the rest is replaced in the same way.
\<close>

inductive replaced :: "pystr \<Rightarrow> pystr \<Rightarrow> pystr \<Rightarrow> pystr \<Rightarrow> bool"
  for old :: pystr and new :: pystr where
  no_occurrence: "\<not> sublist old s \<Longrightarrow> replaced old new s s"
| first_occurrence:
    "\<not> sublist old (pre @ butlast old) \<Longrightarrow> replaced old new post r \<Longrightarrow>
     replaced old new (pre @ old @ post) (pre @ new @ r)"

text \<open>
  \<open>rendered body variables_dict out\<close>: for each entry of the mapping in turn, every
  occurrence of the placeholder of its name is replaced by its value.
\<close>

inductive rendered :: "pystr \<Rightarrow> (pystr \<times> pystr) list \<Rightarrow> pystr \<Rightarrow> bool" where
  no_entry: "rendered body [] body"
| entry:
    "replaced (placeholder var_name) var_value body mid \<Longrightarrow> rendered mid variables_dict out \<Longrightarrow>
     rendered body ((var_name, var_value) # variables_dict) out"

text \<open>A text without a brace character.\<close>

definition brace_free :: "pystr \<Rightarrow> bool" where
  "brace_free t \<longleftrightarrow> LB \<notin> set t \<and> RB \<notin> set t"

text \<open>
  A well-formed template is a sequence of tokens: characters that are not braces, and
  placeholders \<^verbatim>\<open>{{t}}\<close> with a brace-free \<open>t\<close>. \<open>flatten\<close> is its text.
\<close>

datatype token = Txt pychar | Ph pystr

fun wf_token :: "token \<Rightarrow> bool" where
  "wf_token (Txt c) \<longleftrightarrow> c \<noteq> LB \<and> c \<noteq> RB"
| "wf_token (Ph t) \<longleftrightarrow> brace_free t"

fun flatten :: "token list \<Rightarrow> pystr" where
  "flatten [] = []"
| "flatten (Txt c # ts) = c # flatten ts"
| "flatten (Ph t # ts) = placeholder t @ flatten ts"

text \<open>
  The substitution of all placeholders at once: a placeholder whose name has a value
  becomes the value, every other token stays.
\<close>

fun substitute :: "(pystr \<rightharpoonup> pystr) \<Rightarrow> token list \<Rightarrow> pystr" where
  "substitute f [] = []"
| "substitute f (Txt c # ts) = c # substitute f ts"
| "substitute f (Ph t # ts) =
     (case f t of Some v \<Rightarrow> v | None \<Rightarrow> placeholder t) @ substitute f ts"

text \<open>
  One replacement on the tokens: the placeholders of the name \<open>k\<close> become the characters
  of the value.
\<close>

fun expand :: "pystr \<Rightarrow> pystr \<Rightarrow> token list \<Rightarrow> token list" where
  "expand k v [] = []"
| "expand k v (Txt c # ts) = Txt c # expand k v ts"
| "expand k v (Ph t # ts) = (if t = k then map Txt v else [Ph t]) @ expand k v ts"

section \<open>Braces and whitespace\<close>

lemma LB_neq_RB [simp]: "LB \<noteq> RB" "RB \<noteq> LB"
  by (simp_all add: LB_def RB_def)

lemma not_space_braces [simp]: "\<not> is_space LB" "\<not> is_space RB"
  by (simp_all add: is_space_def LB_def RB_def)

section \<open>One step of each scan\<close>

declare findall.simps(2) [simp del]
declare replace_scan.simps(2) [simp del]

lemma replace_scan_hit:
  "old \<noteq> [] \<Longrightarrow> prefix old (c # cs) \<Longrightarrow>
   replace_scan old new (c # cs) = new @ replace_scan old new (drop (length old) (c # cs))"
  by (simp only: replace_scan.simps(2) simp_thms if_True)

lemma replace_scan_miss:
  "\<not> prefix old (c # cs) \<Longrightarrow> replace_scan old new (c # cs) = c # replace_scan old new cs"
  by (simp only: replace_scan.simps(2) simp_thms if_False)

section \<open>The scan of \<^verbatim>\<open>findall\<close> finds the matches\<close>

lemma takeWhile_not_RB: "RB \<notin> set xs \<Longrightarrow> takeWhile (\<lambda>x. x \<noteq> RB) (xs @ RB # ys) = xs"
  by (induction xs) auto

lemma dropWhile_not_RB: "RB \<notin> set xs \<Longrightarrow> dropWhile (\<lambda>x. x \<noteq> RB) (xs @ RB # ys) = RB # ys"
  by (induction xs) auto

lemma occurrence_at_start:
  "(\<exists>inner post. occurrence s [] inner post) \<longleftrightarrow>
     prefix [LB, LB] s \<and> takeWhile (\<lambda>x. x \<noteq> RB) (drop 2 s) \<noteq> [] \<and>
     prefix [RB, RB] (dropWhile (\<lambda>x. x \<noteq> RB) (drop 2 s))"
  (is "?L \<longleftrightarrow> ?R")
proof
  assume ?L
  then obtain inner post where s: "s = [LB, LB] @ inner @ [RB, RB] @ post"
    and ne: "inner \<noteq> []" and nb: "RB \<notin> set inner"
    by (auto simp: occurrence_def)
  have d: "drop 2 s = inner @ RB # RB # post" by (simp add: s)
  show ?R using ne nb by (simp add: d takeWhile_not_RB dropWhile_not_RB) (simp add: s)
next
  assume r: ?R
  let ?d = "drop 2 s"
  let ?inner = "takeWhile (\<lambda>x. x \<noteq> RB) ?d"
  let ?rest = "dropWhile (\<lambda>x. x \<noteq> RB) ?d"
  from r obtain s' where s: "s = [LB, LB] @ s'" by (auto simp: prefix_def)
  from r obtain post where p: "?rest = [RB, RB] @ post" by (auto simp: prefix_def)
  have "?inner @ ?rest = ?d" by (rule takeWhile_dropWhile_id)
  then have "?d = ?inner @ [RB, RB] @ post" by (simp only: p)
  moreover have "s = [LB, LB] @ ?d" using s by simp
  ultimately have "s = [LB, LB] @ ?inner @ [RB, RB] @ post" by (simp only:)
  moreover have "RB \<notin> set ?inner" by (auto dest: set_takeWhileD)
  ultimately have "occurrence s [] ?inner post" using r by (simp add: occurrence_def)
  then show ?L by blast
qed

lemma occurrence_start_unique:
  assumes "occurrence s [] inner post"
  shows "takeWhile (\<lambda>x. x \<noteq> RB) (drop 2 s) = inner"
    and "drop 2 (dropWhile (\<lambda>x. x \<noteq> RB) (drop 2 s)) = post"
proof -
  from assms have s: "s = [LB, LB] @ inner @ [RB, RB] @ post" and nb: "RB \<notin> set inner"
    by (auto simp: occurrence_def)
  have d: "drop 2 s = inner @ RB # RB # post" by (simp add: s)
  show "takeWhile (\<lambda>x. x \<noteq> RB) (drop 2 s) = inner"
    using nb by (simp add: d takeWhile_not_RB)
  show "drop 2 (dropWhile (\<lambda>x. x \<noteq> RB) (drop 2 s)) = post"
    using nb by (simp add: d dropWhile_not_RB)
qed

text \<open>Two occurrences that overlap end at the same closing braces.\<close>

lemma overlap_same_closing:
  assumes o: "occurrence s [] run rest"
    and o': "occurrence s pre' inner' post'"
    and len: "length pre' < length run + 4"
  shows "post' = rest"
proof -
  from o have s: "s = [LB, LB] @ run @ [RB, RB] @ rest" and nb: "RB \<notin> set run"
    by (auto simp: occurrence_def)
  from o' have s': "s = pre' @ [LB, LB] @ inner' @ [RB, RB] @ post'" and nb': "RB \<notin> set inner'"
    by (auto simp: occurrence_def)
  have s2: "s = (LB # LB # run) @ RB # RB # rest" by (simp add: s)
  have nb2: "RB \<notin> set (LB # LB # run)" using nb by simp
  have dw: "dropWhile (\<lambda>x. x \<noteq> RB) s = RB # RB # rest"
    unfolding s2 using nb2 by (rule dropWhile_not_RB)
  have tw: "takeWhile (\<lambda>x. x \<noteq> RB) s = LB # LB # run"
    unfolding s2 using nb2 by (rule takeWhile_not_RB)
  show ?thesis
  proof (cases "RB \<in> set pre'")
    case False
    have s3: "s = (pre' @ LB # LB # inner') @ RB # RB # post'" by (simp add: s')
    have "RB \<notin> set (pre' @ LB # LB # inner')" using nb' False by simp
    then have "dropWhile (\<lambda>x. x \<noteq> RB) s = RB # RB # post'"
      unfolding s3 by (rule dropWhile_not_RB)
    with dw show ?thesis by simp
  next
    case True
    then obtain a b where pre': "pre' = a @ RB # b" and na: "RB \<notin> set a"
      by (auto dest: split_list_first)
    have "s = a @ RB # (b @ [LB, LB] @ inner' @ [RB, RB] @ post')" by (simp add: s' pre')
    then have "takeWhile (\<lambda>x. x \<noteq> RB) s = a" using na by (simp add: takeWhile_not_RB)
    with tw have a: "a = LB # LB # run" by simp
    with len pre' have b: "b = []" by simp
    from s s' show ?thesis by (simp add: pre' a b)
  qed
qed


lemma occurrence_shift:
  "occurrence (p @ s) (p @ pre) inner post \<longleftrightarrow> occurrence s pre inner post"
  by (simp add: occurrence_def)

lemma occurrence_behind:
  assumes "occurrence (p @ s) pre inner post" and "length p \<le> length pre"
  shows "\<exists>pre'. pre = p @ pre' \<and> occurrence s pre' inner post"
proof -
  from assms(1) have e: "p @ s = pre @ [LB, LB] @ inner @ [RB, RB] @ post"
    by (simp add: occurrence_def)
  from e assms(2) obtain pre' where "pre = p @ pre'"
    by (auto simp: append_eq_append_conv2 )
  with assms(1) show ?thesis by (auto simp: occurrence_def)
qed

lemma occurrence_length:
  "occurrence s pre inner post \<Longrightarrow> length s = length pre + length inner + length post + 4"
  by (simp add: occurrence_def)

text \<open>The matches of a text that begins with a match.\<close>

lemma is_match_step:
  assumes o: "occurrence s [] run rest"
  shows "is_match s pre inner post \<longleftrightarrow>
     (pre = [] \<and> inner = run \<and> post = rest) \<or>
     (\<exists>pre'. pre = [LB, LB] @ run @ [RB, RB] @ pre' \<and> is_match rest pre' inner post)"
    (is "?L \<longleftrightarrow> ?A \<or> ?B")
proof -
  let ?p = "[LB, LB] @ run @ [RB, RB]"
  from o have s: "s = ?p @ rest" by (simp add: occurrence_def)
  have lp: "length ?p = length run + 4" by simp
  show ?thesis
  proof
    assume m: ?L
    then have om: "occurrence s pre inner post"
      and mx: "\<And>pre' inner'. occurrence s pre' inner' post \<Longrightarrow> \<not> length pre' < length pre"
      by (auto simp: is_match_def)
    show "?A \<or> ?B"
    proof (cases "length pre < length run + 4")
      case True
      with o om have post: "post = rest" by (rule overlap_same_closing)
      with o mx have "pre = []" by fastforce
      moreover from this o om have "inner = run"
        using occurrence_start_unique(1) by blast
      ultimately show ?thesis using post by simp
    next
      case False
      then have "length ?p \<le> length pre" by simp
      with om [unfolded s] obtain pre' where pre: "pre = ?p @ pre'"
        and o': "occurrence rest pre' inner post"
        using occurrence_behind by blast
      have "\<not> length q < length pre'" if "occurrence rest q inner' post" for q inner'
      proof -
        from that have "occurrence s (?p @ q) inner' post"
          unfolding s by (simp only: occurrence_shift)
        from mx [OF this] show ?thesis by (simp add: pre)
      qed
      with o' have "is_match rest pre' inner post" by (auto simp: is_match_def)
      with pre show ?thesis by simp
    qed
  next
    assume "?A \<or> ?B"
    then show ?L
    proof
      assume ?A
      with o show ?L by (simp add: is_match_def)
    next
      assume ?B
      then obtain pre' where pre: "pre = ?p @ pre'" and m: "is_match rest pre' inner post"
        by auto
      from m have o': "occurrence rest pre' inner post"
        and mx: "\<And>q inner'. occurrence rest q inner' post \<Longrightarrow> \<not> length q < length pre'"
        by (auto simp: is_match_def)
      have om: "occurrence s pre inner post"
        unfolding s pre using o' by (simp only: occurrence_shift)
      have "\<not> length q < length pre" if oq: "occurrence s q inner' post" for q inner'
      proof (cases "length q < length run + 4")
        case True
        with o oq have "post = rest" by (rule overlap_same_closing)
        with occurrence_length [OF o'] show ?thesis by simp
      next
        case False
        then have "length ?p \<le> length q" by simp
        with oq [unfolded s] obtain q' where q: "q = ?p @ q'"
          and "occurrence rest q' inner' post"
          using occurrence_behind by blast
        from mx [OF this(2)] show ?thesis by (simp add: q pre)
      qed
      with om show ?L by (auto simp: is_match_def)
    qed
  qed
qed

text \<open>The matches of a text that does not begin with a match.\<close>

lemma is_match_skip:
  assumes no: "\<not> (\<exists>inner post. occurrence (c # cs) [] inner post)"
  shows "is_match (c # cs) pre inner post \<longleftrightarrow>
     (\<exists>pre'. pre = c # pre' \<and> is_match cs pre' inner post)"
proof -
  have shift: "occurrence (c # cs) (c # q) i p \<longleftrightarrow> occurrence cs q i p" for q i p
    using occurrence_shift [of "[c]" cs q i p] by simp
  have behind: "\<exists>q'. q = c # q' \<and> occurrence cs q' i p" if "occurrence (c # cs) q i p" for q i p
  proof -
    from that no have "q \<noteq> []" by blast
    then have "length [c] \<le> length q" by (cases q) simp_all
    with that occurrence_behind [of "[c]" cs q i p] show ?thesis by simp
  qed
  show ?thesis
  proof
    assume m: "is_match (c # cs) pre inner post"
    then have om: "occurrence (c # cs) pre inner post"
      and mx: "\<And>q i. occurrence (c # cs) q i post \<Longrightarrow> \<not> length q < length pre"
      by (auto simp: is_match_def)
    from behind [OF om] obtain pre' where pre: "pre = c # pre'"
      and o': "occurrence cs pre' inner post" by blast
    have "\<not> length q < length pre'" if "occurrence cs q i post" for q i
    proof -
      from that have "occurrence (c # cs) (c # q) i post" by (simp only: shift)
      from mx [OF this] show ?thesis by (simp add: pre)
    qed
    with o' have "is_match cs pre' inner post" by (auto simp: is_match_def)
    with pre show "\<exists>pre'. pre = c # pre' \<and> is_match cs pre' inner post" by blast
  next
    assume "\<exists>pre'. pre = c # pre' \<and> is_match cs pre' inner post"
    then obtain pre' where pre: "pre = c # pre'" and m: "is_match cs pre' inner post"
      by blast
    from m have o': "occurrence cs pre' inner post"
      and mx: "\<And>q i. occurrence cs q i post \<Longrightarrow> \<not> length q < length pre'"
      by (auto simp: is_match_def)
    have om: "occurrence (c # cs) pre inner post" using o' by (simp only: pre shift)
    have "\<not> length q < length pre" if oq: "occurrence (c # cs) q i post" for q i
    proof -
      from behind [OF oq] obtain q' where q: "q = c # q'" and "occurrence cs q' i post"
        by blast
      from mx [OF this(2)] show ?thesis by (simp add: q pre)
    qed
    with om show "is_match (c # cs) pre inner post" by (auto simp: is_match_def)
  qed
qed

text \<open>The scan finds the matches, and nothing else.\<close>

lemma findall_is_match:
  "inner \<in> set (findall s) \<longleftrightarrow> (\<exists>pre post. is_match s pre inner post)"
proof (induction s rule: findall.induct)
  case 1
  show ?case by (simp add: is_match_def occurrence_def)
next
  case (2 c cs)
  let ?s = "c # cs"
  let ?run = "takeWhile (\<lambda>x. x \<noteq> RB) (drop 2 ?s)"
  let ?rest = "drop 2 (dropWhile (\<lambda>x. x \<noteq> RB) (drop 2 ?s))"
  let ?cond = "prefix [LB, LB] ?s \<and> ?run \<noteq> [] \<and>
     prefix [RB, RB] (dropWhile (\<lambda>x. x \<noteq> RB) (drop 2 ?s))"
  show ?case
  proof (cases ?cond)
    case True
    then obtain i p where "occurrence ?s [] i p"
      using occurrence_at_start [of ?s] by blast
    with occurrence_start_unique [OF this] have o: "occurrence ?s [] ?run ?rest" by simp
    have f: "findall ?s = ?run # findall ?rest"
      using True by (simp only: findall.simps(2) simp_thms if_True)
    have ih: "inner \<in> set (findall ?rest) \<longleftrightarrow> (\<exists>pre post. is_match ?rest pre inner post)"
      using "2.IH"(1) [OF True] .
    show ?thesis
      unfolding f is_match_step [OF o]
      using ih by auto
  next
    case False
    then have no: "\<not> (\<exists>inner post. occurrence ?s [] inner post)"
      using occurrence_at_start [of ?s] by blast
    have f: "findall ?s = findall cs"
      using False by (simp only: findall.simps(2) simp_thms if_False)
    have ih: "inner \<in> set (findall cs) \<longleftrightarrow> (\<exists>pre post. is_match cs pre inner post)"
      using "2.IH"(2) [OF False] .
    show ?thesis
      unfolding f is_match_skip [OF no]
      using ih by auto
  qed
qed

section \<open>The scan of \<^verbatim>\<open>str.replace\<close> replaces every occurrence\<close>

lemma replace_scan_no_occurrence:
  "\<not> sublist old s \<Longrightarrow> replace_scan old new s = s"
proof (induction s)
  case Nil
  show ?case by simp
next
  case (Cons c cs)
  have "\<not> prefix old (c # cs)"
    using Cons.prems by (rule contrapos_nn) (rule prefix_imp_sublist)
  moreover have "\<not> sublist old cs"
    using Cons.prems by (simp add: sublist_Cons_right)
  ultimately show ?case using Cons.IH by (simp add: replace_scan_miss)
qed

lemma prefix_append_short:
  "prefix xs (ys @ zs) \<Longrightarrow> length xs \<le> length ys \<Longrightarrow> prefix xs ys"
  by (auto simp: prefix_append)

lemma butlast_snoc_last: "old \<noteq> [] \<Longrightarrow> (p @ butlast old) @ last old # post = p @ old @ post"
proof -
  assume "old \<noteq> []"
  then have "butlast old @ [last old] = old" by simp
  then have "p @ (butlast old @ [last old]) @ post = p @ old @ post" by (simp only:)
  then show ?thesis by simp
qed

lemma replace_scan_at_occurrence:
  assumes "old \<noteq> []"
  shows "replace_scan old new (old @ post) = new @ replace_scan old new post"
proof -
  from assms obtain x xs where old: "old = x # xs" by (cases old) auto
  have "prefix old (x # (xs @ post))" by (simp add: old)
  with assms have "replace_scan old new (x # (xs @ post)) =
      new @ replace_scan old new (drop (length old) (x # (xs @ post)))"
    by (rule replace_scan_hit)
  moreover have "drop (length old) (x # (xs @ post)) = post" by (simp add: old)
  moreover have "old @ post = x # (xs @ post)" by (simp add: old)
  ultimately show ?thesis by (simp only:)
qed

lemma replace_scan_first_occurrence:
  assumes "old \<noteq> []" and "\<not> sublist old (pre @ butlast old)"
  shows "replace_scan old new (pre @ old @ post) = pre @ new @ replace_scan old new post"
  using assms(2)
proof (induction pre)
  case Nil
  show ?case using replace_scan_at_occurrence [OF assms(1)] by simp
next
  case (Cons c pre)
  have "\<not> prefix old (c # (pre @ old @ post))"
  proof
    assume p: "prefix old (c # (pre @ old @ post))"
    have e: "((c # pre) @ butlast old) @ last old # post = c # (pre @ old @ post)"
      using butlast_snoc_last [OF assms(1), of "c # pre" post] by simp
    from p have "prefix old (((c # pre) @ butlast old) @ last old # post)" by (simp only: e)
    moreover have "length old \<le> length ((c # pre) @ butlast old)" by simp
    ultimately have "prefix old ((c # pre) @ butlast old)" by (rule prefix_append_short)
    then have "sublist old ((c # pre) @ butlast old)" by (rule prefix_imp_sublist)
    with Cons.prems show False by (rule notE)
  qed
  then have "replace_scan old new (c # (pre @ old @ post)) =
      c # replace_scan old new (pre @ old @ post)"
    by (rule replace_scan_miss)
  moreover have "\<not> sublist old (pre @ butlast old)"
  proof
    assume "sublist old (pre @ butlast old)"
    then have "sublist old (c # (pre @ butlast old))" by (simp add: sublist_Cons_right)
    with Cons.prems show False by simp
  qed
  ultimately show ?case using Cons.IH by simp
qed

lemma first_occurrence_exists:
  assumes "old \<noteq> []" and "sublist old s"
  shows "\<exists>pre post. s = pre @ old @ post \<and> \<not> sublist old (pre @ butlast old)"
  using assms(2)
proof (induction s)
  case Nil
  with assms(1) show ?case by simp
next
  case (Cons c cs)
  show ?case
  proof (cases "prefix old (c # cs)")
    case True
    then obtain post where "c # cs = old @ post" by (auto simp: prefix_def)
    then have e: "c # cs = [] @ old @ post" by simp
    have "length (butlast old) < length old" using assms(1) by simp
    then have "\<not> sublist old (butlast old)"
      using sublist_length_le [of old "butlast old"] by auto
    then have "\<not> sublist old ([] @ butlast old)" by simp
    with e show ?thesis by (intro exI conjI)
  next
    case False
    from Cons.prems False have "sublist old cs"
      by (simp only: sublist_Cons_right simp_thms)
    with Cons.IH obtain pre post where cs: "cs = pre @ old @ post"
      and n: "\<not> sublist old (pre @ butlast old)" by auto
    have "\<not> prefix old (c # (pre @ butlast old))"
    proof
      assume "prefix old (c # (pre @ butlast old))"
      then have "prefix old ((c # (pre @ butlast old)) @ last old # post)"
        by (rule prefix_prefix)
      moreover have "(c # (pre @ butlast old)) @ last old # post = c # cs"
        using butlast_snoc_last [OF assms(1), of "c # pre" post] by (simp add: cs)
      ultimately show False using False by (simp only:)
    qed
    with n have "\<not> sublist old (c # (pre @ butlast old))"
      by (simp only: sublist_Cons_right simp_thms)
    then have "\<not> sublist old ((c # pre) @ butlast old)" by simp
    moreover have "c # cs = (c # pre) @ old @ post" by (simp add: cs)
    ultimately show ?thesis by (intro exI conjI)
  qed
qed

lemma replaced_replace_scan:
  assumes "old \<noteq> []"
  shows "replaced old new s (replace_scan old new s)"
proof (induction s rule: length_induct)
  case (1 s)
  show ?case
  proof (cases "sublist old s")
    case False
    then show ?thesis by (simp add: replace_scan_no_occurrence replaced.no_occurrence)
  next
    case True
    with assms obtain pre post where s: "s = pre @ old @ post"
      and n: "\<not> sublist old (pre @ butlast old)"
      using first_occurrence_exists by blast
    have "length post < length s" using assms by (simp add: s)
    with 1 have "replaced old new post (replace_scan old new post)" by blast
    with n have "replaced old new (pre @ old @ post) (pre @ new @ replace_scan old new post)"
      by (rule replaced.first_occurrence)
    then show ?thesis by (simp add: s replace_scan_first_occurrence [OF assms n])
  qed
qed

lemma replaced_unique:
  assumes "old \<noteq> []" and "replaced old new s r"
  shows "r = replace_scan old new s"
  using assms(2)
proof (induction rule: replaced.induct)
  case (no_occurrence s)
  then show ?case by (simp add: replace_scan_no_occurrence)
next
  case (first_occurrence pre post r)
  then show ?case by (simp add: replace_scan_first_occurrence [OF assms(1)])
qed

lemma replaced_iff:
  "old \<noteq> [] \<Longrightarrow> replaced old new s r \<longleftrightarrow> r = str_replace old new s"
  using replaced_replace_scan replaced_unique by (auto simp: str_replace_def)

lemma placeholder_not_Nil [simp]: "placeholder k \<noteq> []"
  by (simp add: placeholder_def)

lemma rendered_iff:
  "rendered body m out \<longleftrightarrow> out = format_template body m"
proof
  assume "rendered body m out"
  then show "out = format_template body m"
  proof (induction rule: rendered.induct)
    case (no_entry body)
    show ?case by simp
  next
    case (entry var_name var_value body mid variables_dict out)
    from entry.hyps(1) have "mid = str_replace (placeholder var_name) var_value body"
      by (rule iffD1 [OF replaced_iff [OF placeholder_not_Nil]])
    with entry.IH show ?case by (simp only: format_template.simps)
  qed
next
  have "rendered body m (format_template body m)"
  proof (induction m arbitrary: body)
    case Nil
    show ?case by (simp add: rendered.no_entry)
  next
    case (Cons e m)
    obtain k v where e: "e = (k, v)" by (cases e)
    have "replaced (placeholder k) v body (str_replace (placeholder k) v body)"
      by (rule iffD2 [OF replaced_iff [OF placeholder_not_Nil]]) (rule refl)
    moreover have "rendered (str_replace (placeholder k) v body) m
        (format_template (str_replace (placeholder k) v body) m)"
      by (rule Cons.IH)
    ultimately have "rendered body ((k, v) # m)
        (format_template (str_replace (placeholder k) v body) m)"
      by (rule rendered.entry)
    then show ?case by (simp only: e format_template.simps)
  qed
  then show "out = format_template body m \<Longrightarrow> rendered body m out" by (simp only:)
qed

section \<open>Properties of extraction and rendering\<close>

text \<open>The equations that evaluate the model on a concrete text.\<close>

lemmas eval_defs = str_def LB_def RB_def placeholder_def str_replace_def strip_def
  is_space_def extract_variables_def findall.simps(2) replace_scan.simps(2)

subsection \<open>Extraction\<close>

lemma occurrence_split:
  assumes "occurrence s pre inner post"
  shows "occurrence ([LB, LB] @ inner @ [RB, RB] @ post) [] inner post"
  using assms by (simp add: occurrence_def)

text \<open>
  The maximal occurrences are the occurrences that no occurrence beginning further left
  overlaps: the two descriptions of a match agree.
\<close>

lemma is_match_iff_not_overlapped:
  "is_match s pre inner post \<longleftrightarrow> occurrence s pre inner post \<and> \<not> overlapped s pre"
proof
  assume m: "is_match s pre inner post"
  then have om: "occurrence s pre inner post"
    and mx: "\<And>q i. occurrence s q i post \<Longrightarrow> \<not> length q < length pre"
    by (auto simp: is_match_def)
  have "\<not> overlapped s pre"
  proof
    assume "overlapped s pre"
    then obtain q i p where oq: "occurrence s q i p" and l1: "length q < length pre"
      and l2: "length pre < length q + length i + 4"
      by (auto simp: overlapped_def)
    let ?s' = "[LB, LB] @ i @ [RB, RB] @ p"
    have s: "s = q @ ?s'" using oq by (simp add: occurrence_def)
    have o0: "occurrence ?s' [] i p" using oq by (rule occurrence_split)
    from om [unfolded s] l1 obtain r where pre: "pre = q @ r" and o1: "occurrence ?s' r inner post"
      using occurrence_behind [of q ?s' pre inner post] by auto
    have "length r < length i + 4" using l2 by (simp add: pre)
    with o0 o1 have "post = p" by (rule overlap_same_closing)
    with oq have "occurrence s q i post" by simp
    from mx [OF this] l1 show False by simp
  qed
  with om show "occurrence s pre inner post \<and> \<not> overlapped s pre" by simp
next
  assume a: "occurrence s pre inner post \<and> \<not> overlapped s pre"
  have "\<not> length q < length pre" if oq: "occurrence s q i post" for q i
  proof
    assume l: "length q < length pre"
    from occurrence_length [OF oq] occurrence_length [of s pre inner post] a
    have "length pre < length q + length i + 4" by simp
    with oq l have "overlapped s pre" by (auto simp: overlapped_def)
    with a show False by simp
  qed
  with a show "is_match s pre inner post" by (auto simp: is_match_def)
qed

text \<open>
  Claim C1. For every string \<open>s\<close>, \<open>extract_variables s\<close> is exactly the set of the
  trimmed inner texts of the matches of the pattern (\<^verbatim>\<open>{{\<close>, one or more characters
  other than \<^verbatim>\<open>}\<close>, \<^verbatim>\<open>}}\<close>) in \<open>s\<close>: a name \<open>n\<close> is in the result if and only if
  some match in \<open>s\<close> has an inner text that trims to \<open>n\<close>. A match is an occurrence of
  the pattern whose inner text is a maximal run, as the matching rule of the
  specification says; these are the non-overlapping matches that
  \<^verbatim>\<open>re.findall\<close> returns (\<open>is_match_iff_not_overlapped\<close>).
\<close>

theorem C1_extract_variables_matches:
  "n \<in> extract_variables s \<longleftrightarrow>
     (\<exists>pre inner post. is_match s pre inner post \<and> strip inner = n)"
proof -
  have "n \<in> extract_variables s \<longleftrightarrow> (\<exists>inner. inner \<in> set (findall s) \<and> strip inner = n)"
    by (auto simp: extract_variables_def)
  also have "\<dots> \<longleftrightarrow> (\<exists>inner. (\<exists>pre post. is_match s pre inner post) \<and> strip inner = n)"
    by (simp only: findall_is_match)
  also have "\<dots> \<longleftrightarrow> (\<exists>pre inner post. is_match s pre inner post \<and> strip inner = n)"
    by blast
  finally show ?thesis .
qed

text \<open>C1 at \<^verbatim>\<open>Hello {{ name }}, welcome to {{place}}.\<close> and the name \<^verbatim>\<open>name\<close>.\<close>

theorem C1_extract_variables_matches_witness:
  "str ''name'' \<in> extract_variables (str ''Hello {{ name }}, welcome to {{place}}.'') \<and>
   (\<exists>pre inner post.
      is_match (str ''Hello {{ name }}, welcome to {{place}}.'') pre inner post \<and>
      strip inner = str ''name'')"
proof -
  have a: "str ''name'' \<in> extract_variables (str ''Hello {{ name }}, welcome to {{place}}.'')"
    by (simp add: eval_defs)
  from a C1_extract_variables_matches [THEN iffD1, OF a] show ?thesis by (rule conjI)
qed

subsection \<open>Trimming, and markers that do not match\<close>

lemma findall_at_match:
  assumes "occurrence s [] inner post"
  shows "findall s = inner # findall post"
proof -
  from assms obtain c cs where s: "s = c # cs" by (cases s) (auto simp: occurrence_def)
  from assms have "\<exists>inner post. occurrence (c # cs) [] inner post" unfolding s by blast
  then have cond: "prefix [LB, LB] (c # cs) \<and>
      takeWhile (\<lambda>x. x \<noteq> RB) (drop 2 (c # cs)) \<noteq> [] \<and>
      prefix [RB, RB] (dropWhile (\<lambda>x. x \<noteq> RB) (drop 2 (c # cs)))"
    by (rule iffD1 [OF occurrence_at_start])
  have "findall (c # cs) = takeWhile (\<lambda>x. x \<noteq> RB) (drop 2 (c # cs)) #
      findall (drop 2 (dropWhile (\<lambda>x. x \<noteq> RB) (drop 2 (c # cs))))"
    using cond by (simp only: findall.simps(2) simp_thms if_True)
  then show ?thesis
    using occurrence_start_unique [OF assms] by (simp only: s)
qed

lemma findall_no_match:
  assumes "\<not> (\<exists>inner post. occurrence (c # cs) [] inner post)"
  shows "findall (c # cs) = findall cs"
  using assms by (simp only: occurrence_at_start findall.simps(2) simp_thms if_False)

lemma rev_dropWhile_takeWhile:
  "rev (dropWhile P (rev d)) @ rev (takeWhile P (rev d)) = d"
proof -
  have "rev (dropWhile P (rev d)) @ rev (takeWhile P (rev d)) =
      rev (takeWhile P (rev d) @ dropWhile P (rev d))"
    by (simp only: rev_append)
  also have "\<dots> = rev (rev d)" by (simp only: takeWhile_dropWhile_id)
  finally show ?thesis by simp
qed

lemma strip_decompose:
  "\<exists>ws1 ws2. s = ws1 @ strip s @ ws2 \<and> list_all is_space ws1 \<and> list_all is_space ws2"
proof -
  let ?d = "dropWhile is_space s"
  let ?ws1 = "takeWhile is_space s"
  let ?ws2 = "rev (takeWhile is_space (rev ?d))"
  have d: "?d = strip s @ ?ws2"
    unfolding strip_def by (rule rev_dropWhile_takeWhile [symmetric])
  have "s = ?ws1 @ ?d" by simp
  with d have "s = ?ws1 @ strip s @ ?ws2" by simp
  moreover have "list_all is_space ?ws1" by (auto simp: list_all_iff dest: set_takeWhileD)
  moreover have "list_all is_space ?ws2" by (auto simp: list_all_iff dest: set_takeWhileD)
  ultimately show ?thesis by blast
qed

lemma strip_ends:
  "strip s = [] \<or> (\<not> is_space (hd (strip s)) \<and> \<not> is_space (last (strip s)))"
proof (cases "strip s = []")
  case True
  then show ?thesis by simp
next
  case False
  let ?d = "dropWhile is_space s"
  let ?e = "dropWhile is_space (rev ?d)"
  have e: "?e \<noteq> []" using False by (simp add: strip_def)
  then have "\<not> is_space (hd ?e)" by (rule hd_dropWhile)
  moreover have "last (strip s) = hd ?e" using e by (simp add: strip_def last_rev)
  ultimately have l: "\<not> is_space (last (strip s))" by simp
  have d: "?d \<noteq> []"
  proof
    assume "?d = []"
    then have "?e = []" by (simp only: rev.simps dropWhile.simps)
    with e show False by (rule notE)
  qed
  then have hd: "\<not> is_space (hd ?d)" by (rule hd_dropWhile)
  have "?d = strip s @ rev (takeWhile is_space (rev ?d))"
    unfolding strip_def by (rule rev_dropWhile_takeWhile [symmetric])
  then have "hd ?d = hd (strip s @ rev (takeWhile is_space (rev ?d)))" by (simp only:)
  with False have "hd ?d = hd (strip s)" by simp
  with hd l show ?thesis by simp
qed

lemma strip_whitespace: "list_all is_space t \<Longrightarrow> strip t = []"
proof -
  assume "list_all is_space t"
  then have "dropWhile is_space t = []" by (induction t) simp_all
  then show ?thesis unfolding strip_def by (simp only: rev.simps dropWhile.simps)
qed

lemma extract_variables_whitespace:
  assumes "t \<noteq> []" and "list_all is_space t"
  shows "extract_variables (placeholder t) = {[]}"
proof -
  have "RB \<notin> set t" using assms(2) by (auto simp: list_all_iff)
  with assms(1) have "occurrence (placeholder t) [] t []"
    by (simp add: occurrence_def placeholder_def)
  then have "findall (placeholder t) = t # findall []" by (rule findall_at_match)
  then show ?thesis using assms(2) by (simp add: extract_variables_def strip_whitespace)
qed


text \<open>
  Claim C7. The inner text of each match is trimmed of leading and trailing whitespace
  before it is added to the result: the result is the image of the matches under
  \<open>strip\<close>, \<open>strip inner\<close> is \<open>inner\<close> without a whitespace prefix and a whitespace
  suffix, and it neither begins nor ends with whitespace. So
  \<^verbatim>\<open>extract("{{ a }}{{a}}") == {"a"}\<close>, and a match that is all whitespace, such as
  \<^verbatim>\<open>{{   }}\<close>, contributes the empty string as a name.
\<close>

theorem C7_matches_are_trimmed:
  "extract_variables s = strip ` set (findall s) \<and>
   (\<exists>ws1 ws2. inner = ws1 @ strip inner @ ws2 \<and>
      list_all is_space ws1 \<and> list_all is_space ws2) \<and>
   (strip inner = [] \<or> (\<not> is_space (hd (strip inner)) \<and> \<not> is_space (last (strip inner)))) \<and>
   (t \<noteq> [] \<and> list_all is_space t \<longrightarrow> extract_variables (placeholder t) = {[]}) \<and>
   extract_variables (str ''{{ a }}{{a}}'') = {str ''a''} \<and>
   extract_variables (str ''{{   }}'') = {[]}"
proof (intro conjI)
  show "extract_variables s = strip ` set (findall s)"
    by (simp add: extract_variables_def)
  show "\<exists>ws1 ws2. inner = ws1 @ strip inner @ ws2 \<and>
      list_all is_space ws1 \<and> list_all is_space ws2"
    by (rule strip_decompose)
  show "strip inner = [] \<or> (\<not> is_space (hd (strip inner)) \<and> \<not> is_space (last (strip inner)))"
    by (rule strip_ends)
  show "t \<noteq> [] \<and> list_all is_space t \<longrightarrow> extract_variables (placeholder t) = {[]}"
    using extract_variables_whitespace by blast
  show "extract_variables (str ''{{ a }}{{a}}'') = {str ''a''}"
    by (simp add: eval_defs)
  show "extract_variables (str ''{{   }}'') = {[]}"
    by (simp add: eval_defs)
qed

text \<open>C7 at the all-whitespace inner text of three spaces.\<close>

theorem C7_matches_are_trimmed_witness:
  "str ''   '' \<noteq> [] \<and> list_all is_space (str ''   '') \<and>
   extract_variables (placeholder (str ''   '')) = {[]} \<and>
   extract_variables (str '' {{ a }}'') = strip ` set (findall (str '' {{ a }}''))"
proof -
  have a: "str ''   '' \<noteq> [] \<and> list_all is_space (str ''   '')"
    by (simp add: str_def is_space_def)
  note c = C7_matches_are_trimmed [of "str '' {{ a }}''" "str '' a ''" "str ''   ''"]
  from c have "str ''   '' \<noteq> [] \<and> list_all is_space (str ''   '') \<longrightarrow>
      extract_variables (placeholder (str ''   '')) = {[]}" by (elim conjE)
  with a have "extract_variables (placeholder (str ''   '')) = {[]}" by (rule rev_mp)
  moreover from c have "extract_variables (str '' {{ a }}'') =
      strip ` set (findall (str '' {{ a }}''))" by (elim conjE)
  ultimately show ?thesis using a by (intro conjI) (elim conjE, assumption)+
qed

text \<open>Where the pattern occurs, some occurrence is a match.\<close>

lemma occurrence_has_closing: "occurrence s pre inner post \<Longrightarrow> sublist [RB, RB] s"
proof -
  assume "occurrence s pre inner post"
  then have "s = (pre @ [LB, LB] @ inner) @ [RB, RB] @ post" by (simp add: occurrence_def)
  then show ?thesis by (simp only: sublist_appendI)
qed

lemma maximal_occurrence_exists:
  assumes "occurrence s pre inner post"
  shows "\<exists>pre' inner'. is_match s pre' inner' post"
proof -
  let ?P = "\<lambda>(q, i). occurrence s q i post"
  let ?m = "\<lambda>(q, i). length q"
  have "?P (pre, inner)" using assms by simp
  from ex_has_least_nat [of ?P "(pre, inner)" ?m, OF this]
  obtain q i where "occurrence s q i post"
    and "\<forall>q' i'. occurrence s q' i' post \<longrightarrow> length q \<le> length q'"
    by auto
  then have "is_match s q i post" by (auto simp: is_match_def not_less)
  then show ?thesis by blast
qed

lemma findall_Nil_iff:
  "findall s = [] \<longleftrightarrow> \<not> (\<exists>pre inner post. occurrence s pre inner post)"
proof
  assume e: "findall s = []"
  show "\<not> (\<exists>pre inner post. occurrence s pre inner post)"
  proof
    assume "\<exists>pre inner post. occurrence s pre inner post"
    then obtain pre inner post where "occurrence s pre inner post" by blast
    then obtain q i where "is_match s q i post"
      using maximal_occurrence_exists by blast
    then have "i \<in> set (findall s)" using findall_is_match by blast
    with e show False by simp
  qed
next
  assume n: "\<not> (\<exists>pre inner post. occurrence s pre inner post)"
  have "x \<notin> set (findall s)" for x
    using n by (auto simp: findall_is_match is_match_def)
  then show "findall s = []" by (cases "findall s") auto
qed

lemma findall_no_closing: "\<not> sublist [RB, RB] s \<Longrightarrow> findall s = []"
  using occurrence_has_closing by (auto simp: findall_Nil_iff)


text \<open>
  An opening \<^verbatim>\<open>{{\<close> with no \<^verbatim>\<open>}}\<close> behind it: an occurrence that begins the text
  ends before the marker.
\<close>

lemma occurrence_before_marker:
  assumes np: "\<not> sublist [RB, RB] post"
    and o: "occurrence (pre @ [LB, LB] @ post) [] i q"
  shows "\<exists>q'. occurrence pre [] i q' \<and> q = q' @ [LB, LB] @ post"
proof -
  let ?s = "pre @ [LB, LB] @ post"
  from o have s: "?s = (LB # LB # i) @ RB # RB # q" and ne: "i \<noteq> []" and nb: "RB \<notin> set i"
    by (auto simp: occurrence_def)
  have nb2: "RB \<notin> set (LB # LB # i)" using nb by simp
  have tw: "takeWhile (\<lambda>x. x \<noteq> RB) ?s = LB # LB # i"
    unfolding s using nb2 by (rule takeWhile_not_RB)
  have dw: "dropWhile (\<lambda>x. x \<noteq> RB) ?s = RB # RB # q"
    unfolding s using nb2 by (rule dropWhile_not_RB)
  show ?thesis
  proof (cases "RB \<in> set pre")
    case False
    then have "dropWhile (\<lambda>x. x \<noteq> RB) ?s = dropWhile (\<lambda>x. x \<noteq> RB) post"
      by (simp add: dropWhile_append)
    with dw have "dropWhile (\<lambda>x. x \<noteq> RB) post = [RB, RB] @ q" by simp
    then have "takeWhile (\<lambda>x. x \<noteq> RB) post @ [RB, RB] @ q = post"
      using takeWhile_dropWhile_id [of "\<lambda>x. x \<noteq> RB" post] by (simp only:)
    then have "sublist [RB, RB] post" using sublist_appendI by metis
    with np show ?thesis by (rule notE)
  next
    case True
    then obtain a b where pre: "pre = a @ RB # b" and na: "RB \<notin> set a"
      by (auto dest: split_list_first)
    have s2: "?s = a @ RB # (b @ [LB, LB] @ post)" by (simp add: pre)
    have "takeWhile (\<lambda>x. x \<noteq> RB) ?s = a"
      unfolding s2 using na by (rule takeWhile_not_RB)
    with tw have a: "a = LB # LB # i" by simp
    have "dropWhile (\<lambda>x. x \<noteq> RB) ?s = RB # (b @ [LB, LB] @ post)"
      unfolding s2 using na by (rule dropWhile_not_RB)
    with dw have b: "b @ [LB, LB] @ post = RB # q" by simp
    then obtain b' where b': "b = RB # b'" by (cases b) auto
    with b have q: "q = b' @ [LB, LB] @ post" by simp
    have "occurrence pre [] i b'" using ne nb by (simp add: occurrence_def pre a b')
    with q show ?thesis by blast
  qed
qed

lemma findall_unmatched_marker:
  assumes np: "\<not> sublist [RB, RB] post"
  shows "findall (pre @ [LB, LB] @ post) = findall pre"
proof (induction pre rule: findall.induct)
  case 1
  have "\<not> sublist [RB, RB] (LB # LB # post)" using np by (simp add: sublist_Cons_right)
  then have "findall (LB # LB # post) = []" by (rule findall_no_closing)
  then show ?case by simp
next
  case (2 c cs)
  let ?cond = "prefix [LB, LB] (c # cs) \<and>
     takeWhile (\<lambda>x. x \<noteq> RB) (drop 2 (c # cs)) \<noteq> [] \<and>
     prefix [RB, RB] (dropWhile (\<lambda>x. x \<noteq> RB) (drop 2 (c # cs)))"
  let ?run = "takeWhile (\<lambda>x. x \<noteq> RB) (drop 2 (c # cs))"
  let ?rest = "drop 2 (dropWhile (\<lambda>x. x \<noteq> RB) (drop 2 (c # cs)))"
  show ?case
  proof (cases ?cond)
    case True
    then obtain i p where "occurrence (c # cs) [] i p"
      using occurrence_at_start [of "c # cs"] by blast
    with occurrence_start_unique [OF this] have o: "occurrence (c # cs) [] ?run ?rest" by simp
    then have o2: "occurrence ((c # cs) @ [LB, LB] @ post) [] ?run (?rest @ [LB, LB] @ post)"
      by (simp add: occurrence_def)
    have "findall ((c # cs) @ [LB, LB] @ post) = ?run # findall (?rest @ [LB, LB] @ post)"
      using o2 by (rule findall_at_match)
    also have "findall (?rest @ [LB, LB] @ post) = findall ?rest"
      using "2.IH"(1) [OF True] .
    also have "?run # findall ?rest = findall (c # cs)"
      using findall_at_match [OF o] by simp
    finally show ?thesis .
  next
    case False
    then have no: "\<not> (\<exists>inner q. occurrence (c # cs) [] inner q)"
      using occurrence_at_start [of "c # cs"] by blast
    have no2: "\<not> (\<exists>inner q. occurrence (c # (cs @ [LB, LB] @ post)) [] inner q)"
    proof
      assume "\<exists>inner q. occurrence (c # (cs @ [LB, LB] @ post)) [] inner q"
      then obtain inner q where "occurrence ((c # cs) @ [LB, LB] @ post) [] inner q" by auto
      with np obtain q' where "occurrence (c # cs) [] inner q'"
        using occurrence_before_marker by blast
      with no show False by blast
    qed
    have "findall ((c # cs) @ [LB, LB] @ post) = findall (c # (cs @ [LB, LB] @ post))" by simp
    also have "\<dots> = findall (cs @ [LB, LB] @ post)" using no2 by (rule findall_no_match)
    also have "\<dots> = findall cs" using "2.IH"(2) [OF False] .
    also have "\<dots> = findall (c # cs)" using findall_no_match [OF no] by simp
    finally show ?thesis .
  qed
qed

text \<open>
  Claim C8. Malformed or unmatched markers give no match and no error. For every string
  with an opening \<^verbatim>\<open>{{\<close> that no \<^verbatim>\<open>}}\<close> follows, the marker is not matched: the
  matches are those of the text before the marker. For every string in which the pattern
  does not occur the result is the empty set (and only for those).
\<close>

theorem C8_unmatched_markers:
  "(\<not> sublist [RB, RB] post \<longrightarrow>
      findall (pre @ [LB, LB] @ post) = findall pre \<and>
      extract_variables (pre @ [LB, LB] @ post) = extract_variables pre) \<and>
   (extract_variables s = {} \<longleftrightarrow> \<not> (\<exists>p inner q. occurrence s p inner q))"
proof (intro conjI impI)
  assume "\<not> sublist [RB, RB] post"
  then show "findall (pre @ [LB, LB] @ post) = findall pre"
    by (rule findall_unmatched_marker)
  then show "extract_variables (pre @ [LB, LB] @ post) = extract_variables pre"
    by (simp only: extract_variables_def)
next
  show "extract_variables s = {} \<longleftrightarrow> \<not> (\<exists>p inner q. occurrence s p inner q)"
    using findall_Nil_iff [of s] by (simp add: extract_variables_def)
qed

text \<open>C8 at \<^verbatim>\<open>{{a}} {{{{b} c\<close> and at \<^verbatim>\<open>a }} {{ b\<close>.\<close>

theorem C8_unmatched_markers_witness:
  "\<not> sublist [RB, RB] (str ''b} c'') \<and>
   findall (str ''{{a}} {{'' @ [LB, LB] @ str ''b} c'') = findall (str ''{{a}} {{'') \<and>
   extract_variables (str ''{{a}} {{'' @ [LB, LB] @ str ''b} c'') = {str ''a''} \<and>
   extract_variables (str ''a }} {{ b'') = {} \<and>
   \<not> (\<exists>p inner q. occurrence (str ''a }} {{ b'') p inner q)"
proof -
  have a: "\<not> sublist [RB, RB] (str ''b} c'')"
    by (simp add: str_def RB_def sublist_code)
  have b: "extract_variables (str ''{{a}} {{'') = {str ''a''}"
    by (simp add: eval_defs)
  have c: "extract_variables (str ''a }} {{ b'') = {}"
    by (simp add: eval_defs)
  note t1 = C8_unmatched_markers [of "str ''b} c''" "str ''{{a}} {{''" "str ''a }} {{ b''",
      THEN conjunct1, THEN mp, OF a]
  note t2 = C8_unmatched_markers [of "str ''b} c''" "str ''{{a}} {{''" "str ''a }} {{ b''",
      THEN conjunct2, THEN iffD1, OF c]
  from a t1 b c t2 show ?thesis by (simp only: simp_thms)
qed

subsection \<open>Rendering\<close>

text \<open>
  Claim C2. For every template body and every mapping, \<open>format_template\<close> returns the
  body in which, for each name of the mapping in turn, every occurrence of the literal text
  \<^verbatim>\<open>'{{' + name + '}}'\<close> is replaced by the value of the name: \<open>out\<close> is the result if
  and only if \<open>rendered body variables_dict out\<close>. The text that is looked for is
  \<open>placeholder var_name\<close>, built from the key of the mapping; \<open>findall\<close> has no part
  in it. In particular \<^verbatim>\<open>render("Hi {{name}}", {"name": "Ana"})\<close> is \<^verbatim>\<open>"Hi Ana"\<close>.
\<close>

theorem C2_format_template_replaces:
  "(rendered body variables_dict out \<longleftrightarrow> out = format_template body variables_dict) \<and>
   format_template (str ''Hi {{name}}'') [(str ''name'', str ''Ana'')] = str ''Hi Ana''"
proof
  show "rendered body variables_dict out \<longleftrightarrow> out = format_template body variables_dict"
    by (rule rendered_iff)
  show "format_template (str ''Hi {{name}}'') [(str ''name'', str ''Ana'')] = str ''Hi Ana''"
    by (simp add: eval_defs)
qed

text \<open>C2 at \<^verbatim>\<open>{{greeting}}, {{name}}!\<close> with two entries.\<close>

theorem C2_format_template_replaces_witness:
  "rendered (str ''{{greeting}}, {{name}}!'')
     [(str ''name'', str ''Ana''), (str ''greeting'', str ''Hi'')] (str ''Hi, Ana!'')"
proof -
  have "str ''Hi, Ana!'' = format_template (str ''{{greeting}}, {{name}}!'')
     [(str ''name'', str ''Ana''), (str ''greeting'', str ''Hi'')]"
    by (simp add: eval_defs)
  with C2_format_template_replaces [THEN conjunct1, THEN iffD2] show ?thesis .
qed

text \<open>
  Claim C6. The replacement is sequential, so a value that has been put in is scanned
  again by the later entries: with the body \<^verbatim>\<open>{{a}}\<close> and the entries
  \<^verbatim>\<open>a -> "{{b}}"\<close>, \<^verbatim>\<open>b -> "X"\<close> in this order the result is \<^verbatim>\<open>X\<close>, not
  \<^verbatim>\<open>{{b}}\<close>. (The first entry alone gives \<^verbatim>\<open>{{b}}\<close>, and so does the other order.)
\<close>

theorem C6_values_are_scanned_again:
  "format_template (str ''{{a}}'') [(str ''a'', str ''{{b}}''), (str ''b'', str ''X'')] = str ''X'' \<and>
   format_template (str ''{{a}}'') [(str ''a'', str ''{{b}}'')] = str ''{{b}}'' \<and>
   format_template (str ''{{a}}'') [(str ''b'', str ''X''), (str ''a'', str ''{{b}}'')] = str ''{{b}}''"
  by (simp add: eval_defs)

text \<open>
  Claim C9. With an empty mapping \<open>format_template\<close> is the identity: for every string
  \<open>s\<close> that contains no placeholder, \<^verbatim>\<open>render(s, {}) == s\<close>. The loop over the
  empty mapping does nothing, so the equation holds for every \<open>s\<close>, with or without a
  placeholder.
\<close>

theorem C9_no_variables_identity:
  "format_template s [] = s"
  by simp

subsection \<open>Placeholders that the mapping does not name\<close>

lemma prefix_placeholder_Cons:
  "prefix (placeholder k) (c # cs) \<Longrightarrow> c = LB"
  by (simp add: placeholder_def)

text \<open>Text without an opening brace is copied.\<close>

lemma replace_scan_no_LB:
  "LB \<notin> set w \<Longrightarrow>
   replace_scan (placeholder k) v (w @ rest) = w @ replace_scan (placeholder k) v rest"
proof (induction w)
  case Nil
  show ?case by simp
next
  case (Cons c w)
  then have "c \<noteq> LB" by auto
  then have "\<not> prefix (placeholder k) (c # (w @ rest))"
    using prefix_placeholder_Cons by blast
  then have "replace_scan (placeholder k) v (c # (w @ rest)) =
      c # replace_scan (placeholder k) v (w @ rest)"
    by (rule replace_scan_miss)
  with Cons show ?case by simp
qed

lemma prefix_same_run:
  assumes "RB \<notin> set k" and "RB \<notin> set t" and "prefix (k @ RB # x) (t @ RB # y)"
  shows "k = t"
proof -
  from assms(3) obtain z where e: "t @ RB # y = k @ RB # (x @ z)"
    by (auto simp: prefix_def)
  have "takeWhile (\<lambda>c. c \<noteq> RB) (t @ RB # y) = t" using assms(2) by (rule takeWhile_not_RB)
  moreover have "takeWhile (\<lambda>c. c \<noteq> RB) (k @ RB # (x @ z)) = k"
    using assms(1) by (rule takeWhile_not_RB)
  ultimately show ?thesis using e by simp
qed

text \<open>A placeholder with another brace-free name is copied.\<close>

lemma replace_scan_other_placeholder:
  assumes k: "brace_free k" and t: "brace_free t" and kt: "k \<noteq> t"
  shows "replace_scan (placeholder k) v (placeholder t @ post) =
     placeholder t @ replace_scan (placeholder k) v post"
proof -
  let ?old = "placeholder k"
  have n0: "\<not> prefix ?old (LB # LB # (t @ RB # RB # post))"
  proof
    assume "prefix ?old (LB # LB # (t @ RB # RB # post))"
    then have "prefix (k @ RB # [RB]) (t @ RB # (RB # post))" by (simp add: placeholder_def)
    with k t have "k = t" using prefix_same_run [of k t "[RB]" "RB # post"]
      by (simp add: brace_free_def)
    with kt show False by simp
  qed
  have n1: "\<not> prefix ?old (LB # (t @ RB # RB # post))"
  proof
    assume "prefix ?old (LB # (t @ RB # RB # post))"
    then have p: "prefix (LB # k @ [RB, RB]) (t @ RB # RB # post)" by (simp add: placeholder_def)
    show False
    proof (cases t)
      case Nil
      with p show False by simp
    next
      case (Cons a t')
      with p have "a = LB" by simp
      with t Cons show False by (simp add: brace_free_def)
    qed
  qed
  have "LB \<notin> set (t @ [RB, RB])" using t by (simp add: brace_free_def)
  then have r: "replace_scan ?old v ((t @ [RB, RB]) @ post) =
      (t @ [RB, RB]) @ replace_scan ?old v post"
    by (rule replace_scan_no_LB)
  have "replace_scan ?old v (LB # LB # (t @ RB # RB # post)) =
      LB # replace_scan ?old v (LB # (t @ RB # RB # post))"
    using n0 by (rule replace_scan_miss)
  also have "replace_scan ?old v (LB # (t @ RB # RB # post)) =
      LB # replace_scan ?old v (t @ RB # RB # post)"
    using n1 by (rule replace_scan_miss)
  also have "replace_scan ?old v (t @ RB # RB # post) = t @ RB # RB # replace_scan ?old v post"
    using r by simp
  finally show ?thesis by (simp add: placeholder_def)
qed

text \<open>An occurrence that begins before a placeholder ends before it.\<close>

lemma prefix_before_placeholder:
  assumes k: "brace_free k" and u: "u \<noteq> []"
    and p: "prefix (placeholder k) (u @ placeholder t @ post)"
  shows "prefix (placeholder k) u"
proof (rule ccontr)
  assume n: "\<not> prefix (placeholder k) u"
  from p n obtain us where e: "placeholder k = u @ us" and pu: "prefix us (placeholder t @ post)"
    by (auto simp: prefix_append)
  from n e have "us \<noteq> []" by auto
  with pu obtain us' where us: "us = LB # us'" and pu': "prefix us' (LB # t @ [RB, RB] @ post)"
    by (cases us) (auto simp: placeholder_def)
  from u obtain y u' where u': "u = y # u'" by (cases u) auto
  from e have e1: "LB # k @ [RB, RB] = u' @ LB # us'" by (simp add: placeholder_def u' us)
  have nk: "LB \<notin> set (k @ [RB, RB])" using k by (simp add: brace_free_def)
  show False
  proof (cases u')
    case Nil
    with e1 have e2: "us' = k @ [RB, RB]" by simp
    show False
    proof (cases k)
      case Nil
      with e2 pu' show False by simp
    next
      case (Cons a k')
      with e2 pu' have "a = LB" by simp
      with nk Cons show False by simp
    qed
  next
    case (Cons z u'')
    with e1 have "k @ [RB, RB] = u'' @ LB # us'" by simp
    then have "LB \<in> set (k @ [RB, RB])" by (simp only: set_append) simp
    with nk show False by (rule notE)
  qed
qed


text \<open>One replacement leaves a placeholder with another name where it is.\<close>

lemma replace_scan_around_placeholder:
  assumes k: "brace_free k" and t: "brace_free t" and kt: "k \<noteq> t"
  shows "replace_scan (placeholder k) v (pre @ placeholder t @ post) =
     replace_scan (placeholder k) v pre @ placeholder t @ replace_scan (placeholder k) v post"
proof (induction pre rule: length_induct)
  case (1 pre)
  let ?old = "placeholder k"
  show ?case
  proof (cases pre)
    case Nil
    then show ?thesis using replace_scan_other_placeholder [OF k t kt] by simp
  next
    case (Cons c cs)
    show ?thesis
    proof (cases "prefix ?old (c # (cs @ placeholder t @ post))")
      case True
      then have "prefix ?old (pre @ placeholder t @ post)" by (simp add: Cons)
      with k have pp: "prefix ?old pre"
        using prefix_before_placeholder [of k pre t post] Cons by simp
      then obtain r where pre: "pre = ?old @ r" by (auto simp: prefix_def)
      have lr: "length r < length pre" by (simp add: pre)
      have d1: "drop (length ?old) (c # (cs @ placeholder t @ post)) = r @ placeholder t @ post"
        using pre Cons by (metis append.assoc append_Cons append_eq_conv_conj)
      have d2: "drop (length ?old) (c # cs) = r"
        using pre Cons by (metis append_eq_conv_conj)
      have "replace_scan ?old v (c # (cs @ placeholder t @ post)) =
          v @ replace_scan ?old v (r @ placeholder t @ post)"
        using replace_scan_hit [OF placeholder_not_Nil True] by (simp only: d1)
      also have "replace_scan ?old v (r @ placeholder t @ post) =
          replace_scan ?old v r @ placeholder t @ replace_scan ?old v post"
        using 1 lr by blast
      finally have a: "replace_scan ?old v (c # (cs @ placeholder t @ post)) =
          v @ replace_scan ?old v r @ placeholder t @ replace_scan ?old v post" .
      have "prefix ?old (c # cs)" using pp by (simp only: Cons)
      then have b: "replace_scan ?old v (c # cs) = v @ replace_scan ?old v r"
        using replace_scan_hit [OF placeholder_not_Nil, of k c cs v] by (simp only: d2)
      show ?thesis using a b by (simp add: Cons)
    next
      case False
      then have m1: "replace_scan ?old v (c # (cs @ placeholder t @ post)) =
          c # replace_scan ?old v (cs @ placeholder t @ post)"
        by (rule replace_scan_miss)
      have "\<not> prefix ?old (c # cs)"
      proof
        assume "prefix ?old (c # cs)"
        then have "prefix ?old ((c # cs) @ placeholder t @ post)" by (rule prefix_prefix)
        with False show False by simp
      qed
      then have m2: "replace_scan ?old v (c # cs) = c # replace_scan ?old v cs"
        by (rule replace_scan_miss)
      have "length cs < length pre" by (simp add: Cons)
      with 1 have "replace_scan ?old v (cs @ placeholder t @ post) =
          replace_scan ?old v cs @ placeholder t @ replace_scan ?old v post"
        by blast
      with m1 m2 show ?thesis by (simp add: Cons)
    qed
  qed
qed

text \<open>So does the whole loop, when no key is the name and no key has a brace.\<close>

lemma format_template_around_placeholder:
  assumes t: "brace_free t"
    and keys: "list_all (\<lambda>(k, v). brace_free k \<and> k \<noteq> t) m"
  shows "format_template (pre @ placeholder t @ post) m =
     format_template pre m @ placeholder t @ format_template post m"
  using keys
proof (induction m arbitrary: pre post)
  case Nil
  show ?case by simp
next
  case (Cons e m)
  obtain k v where e: "e = (k, v)" by (cases e)
  from Cons.prems have k: "brace_free k" and kt: "k \<noteq> t"
    and rest: "list_all (\<lambda>(k, v). brace_free k \<and> k \<noteq> t) m"
    by (simp_all add: e)
  have "str_replace (placeholder k) v (pre @ placeholder t @ post) =
      str_replace (placeholder k) v pre @ placeholder t @ str_replace (placeholder k) v post"
    using replace_scan_around_placeholder [OF k t kt] by (simp add: str_replace_def)
  then show ?case using Cons.IH [OF rest] by (simp add: e)
qed


text \<open>
  Claim C3 says that every placeholder occurrence whose name has no entry in the mapping
  appears unchanged in the output. It fails in three ways. The body \<^verbatim>\<open>{{ a }}\<close> has the
  placeholder name \<^verbatim>\<open>a\<close>; the mapping with the one key \<^verbatim>\<open>" a "\<close> has no entry for
  \<^verbatim>\<open>a\<close>, and the output is \<^verbatim>\<open>X\<close>. The body \<^verbatim>\<open>{{x{{b}}\<close> has the one placeholder
  name \<^verbatim>\<open>x{{b\<close>; the mapping with the one key \<^verbatim>\<open>b\<close> has no entry for it, and the
  output is \<^verbatim>\<open>{{xX\<close>. The body \<^verbatim>\<open>{{a}}{{b}}\<close> has the names \<^verbatim>\<open>a\<close> and \<^verbatim>\<open>b\<close>;
  the mapping with the one key \<^verbatim>\<open>a}}{{b\<close> has an entry for neither, and the output is
  \<^verbatim>\<open>X\<close>.
\<close>

theorem C3_counterexample:
  "findall (str ''{{ a }}'') = [str '' a ''] \<and> strip (str '' a '') = str ''a'' \<and>
   map_of [(str '' a '', str ''X'')] (str ''a'') = None \<and>
   format_template (str ''{{ a }}'') [(str '' a '', str ''X'')] = str ''X'' \<and>
   findall (str ''{{x{{b}}'') = [str ''x{{b''] \<and> strip (str ''x{{b'') = str ''x{{b'' \<and>
   map_of [(str ''b'', str ''X'')] (str ''x{{b'') = None \<and>
   format_template (str ''{{x{{b}}'') [(str ''b'', str ''X'')] = str ''{{xX'' \<and>
   findall (str ''{{a}}{{b}}'') = [str ''a'', str ''b''] \<and>
   map_of [(str ''a}}{{b'', str ''X'')] (str ''a'') = None \<and>
   map_of [(str ''a}}{{b'', str ''X'')] (str ''b'') = None \<and>
   format_template (str ''{{a}}{{b}}'') [(str ''a}}{{b'', str ''X'')] = str ''X''"
  by (simp add: eval_defs)

text \<open>
  Claim C3, amended. For every body and mapping, a placeholder occurrence \<^verbatim>\<open>{{t}}\<close> in
  the body whose inner text \<open>t\<close>, as it is written between the braces, has no brace
  character and is not a key of the mapping appears unchanged in the output, when no key
  of the mapping has a brace character: the output is the rendering of the text before
  the occurrence, the occurrence, and the rendering of the text behind it. In particular
  \<^verbatim>\<open>render("Hi {{name}}", {}) == "Hi {{name}}"\<close>. No error for a missing variable is
  raised: \<open>format_template\<close> has no error result.
\<close>

theorem C3_unmatched_placeholder_kept:
  assumes "brace_free t"
    and "list_all (\<lambda>(k, v). brace_free k \<and> k \<noteq> t) variables_dict"
  shows "format_template (pre @ placeholder t @ post) variables_dict =
       format_template pre variables_dict @ placeholder t @ format_template post variables_dict \<and>
     format_template (str ''Hi {{name}}'') [] = str ''Hi {{name}}''"
  using format_template_around_placeholder [OF assms] by simp

text \<open>C3 at \<^verbatim>\<open>{{greeting}} {{name}}{{Hi}}\<close> with the keys \<^verbatim>\<open>greeting\<close> and \<^verbatim>\<open>Hi\<close>.\<close>

theorem C3_unmatched_placeholder_kept_witness:
  "brace_free (str ''name'') \<and>
   list_all (\<lambda>(k, v). brace_free k \<and> k \<noteq> str ''name'')
     [(str ''greeting'', str ''{{Hi}}''), (str ''Hi'', str ''Hello'')] \<and>
   format_template (str ''{{greeting}} '' @ placeholder (str ''name'') @ str ''{{Hi}}'')
     [(str ''greeting'', str ''{{Hi}}''), (str ''Hi'', str ''Hello'')] =
   str ''Hello {{name}}Hello''"
proof -
  have a: "brace_free (str ''name'')"
    by (simp add: brace_free_def str_def LB_def RB_def)
  have b: "list_all (\<lambda>(k, v). brace_free k \<and> k \<noteq> str ''name'')
     [(str ''greeting'', str ''{{Hi}}''), (str ''Hi'', str ''Hello'')]"
    by (simp add: brace_free_def str_def LB_def RB_def)
  have c: "format_template (str ''{{greeting}} '')
       [(str ''greeting'', str ''{{Hi}}''), (str ''Hi'', str ''Hello'')] = str ''Hello ''"
    by (simp add: eval_defs)
  have d: "format_template (str ''{{Hi}}'')
       [(str ''greeting'', str ''{{Hi}}''), (str ''Hi'', str ''Hello'')] = str ''Hello''"
    by (simp add: eval_defs)
  have e: "str ''Hello '' @ placeholder (str ''name'') @ str ''Hello'' = str ''Hello {{name}}Hello''"
    by (simp add: eval_defs)
  from C3_unmatched_placeholder_kept [OF a b, of "str ''{{greeting}} ''" "str ''{{Hi}}''"]
  have "format_template (str ''{{greeting}} '' @ placeholder (str ''name'') @ str ''{{Hi}}'')
     [(str ''greeting'', str ''{{Hi}}''), (str ''Hi'', str ''Hello'')] =
     str ''Hello {{name}}Hello''"
    by (simp only: c d e)
  with a b show ?thesis by (simp only: simp_thms)
qed

subsection \<open>Placeholders written with whitespace\<close>

lemma set_strip: "set (strip t) \<subseteq> set t"
proof -
  obtain ws1 ws2 where "t = ws1 @ strip t @ ws2" using strip_decompose by blast
  then have "set t = set ws1 \<union> set (strip t) \<union> set ws2" by (metis set_append sup_assoc)
  then show ?thesis by blast
qed

lemma strip_Nil [simp]: "strip [] = []"
  by (simp add: strip_def)

text \<open>The placeholder of the trimmed name does not occur in the placeholder written with whitespace.\<close>

lemma stripped_placeholder_absent:
  assumes nb: "RB \<notin> set t" and ne: "strip t \<noteq> t"
  shows "\<not> sublist (placeholder (strip t)) (placeholder t)"
proof
  define st where "st = strip t"
  assume "sublist (placeholder (strip t)) (placeholder t)"
  then obtain pre post where "placeholder t = pre @ placeholder (strip t) @ post"
    by (auto simp: sublist_def)
  then have e: "LB # LB # t @ [RB, RB] = pre @ LB # LB # st @ RB # RB # post"
    by (simp add: placeholder_def st_def)
  have nst: "st \<noteq> t" using ne by (simp add: st_def)
  have nbs: "RB \<notin> set st" using nb set_strip [of t] by (auto simp: st_def)
  obtain ws1 ws2 where tw2: "t = ws1 @ st @ ws2"
    and s1: "list_all is_space ws1" and s2: "list_all is_space ws2"
    using strip_decompose [of t] unfolding st_def by blast
  have ends: "st = [] \<or> \<not> is_space (last st)"
    using strip_ends [of t] unfolding st_def by blast
  have l: "LB # LB # t @ [RB, RB] = (LB # LB # t) @ RB # [RB]" by simp
  have nt: "RB \<notin> set (LB # LB # t)" using nb by simp
  have dw: "dropWhile (\<lambda>x. x \<noteq> RB) (LB # LB # t @ [RB, RB]) = RB # [RB]"
    unfolding l using nt by (rule dropWhile_not_RB)
  have tw: "takeWhile (\<lambda>x. x \<noteq> RB) (LB # LB # t @ [RB, RB]) = LB # LB # t"
    unfolding l using nt by (rule takeWhile_not_RB)
  have npre: "RB \<notin> set pre"
  proof
    assume "RB \<in> set pre"
    then obtain a b where pre: "pre = a @ RB # b" and na: "RB \<notin> set a"
      by (auto dest: split_list_first)
    have e2: "LB # LB # t @ [RB, RB] = a @ RB # (b @ LB # LB # st @ RB # RB # post)"
      using e by (simp add: pre)
    have "dropWhile (\<lambda>x. x \<noteq> RB) (a @ RB # (b @ LB # LB # st @ RB # RB # post)) =
        RB # (b @ LB # LB # st @ RB # RB # post)"
      using na by (rule dropWhile_not_RB)
    with dw have "RB # [RB] = RB # (b @ LB # LB # st @ RB # RB # post)" by (simp only: e2)
    then have "length [RB] = length (b @ LB # LB # st @ RB # RB # post)" by simp
    then show False by simp
  qed
  have r: "pre @ LB # LB # st @ RB # RB # post = (pre @ LB # LB # st) @ RB # (RB # post)"
    by simp
  have nr: "RB \<notin> set (pre @ LB # LB # st)" using npre nbs by simp
  have "takeWhile (\<lambda>x. x \<noteq> RB) ((pre @ LB # LB # st) @ RB # (RB # post)) = pre @ LB # LB # st"
    using nr by (rule takeWhile_not_RB)
  with tw have t1: "LB # LB # t = pre @ LB # LB # st" by (simp only: e r)
  have "\<exists>u. t = (u @ [LB]) @ st"
  proof (cases pre)
    case Nil
    with t1 nst show ?thesis by simp
  next
    case (Cons x pre')
    note c1 = Cons
    show ?thesis
    proof (cases pre')
      case Nil
      with t1 c1 have "t = ([] @ [LB]) @ st" by simp
      then show ?thesis by (rule exI)
    next
      case (Cons y pre'')
      with t1 c1 have "t = ((pre'' @ [LB]) @ [LB]) @ st" by simp
      then show ?thesis by (rule exI)
    qed
  qed
  then obtain u where tu: "t = (u @ [LB]) @ st" by (rule exE)
  have "ws2 = []"
  proof (rule ccontr)
    assume w: "ws2 \<noteq> []"
    then have "last (ws1 @ st @ ws2) = last ws2" by simp
    then have "last t = last ws2" by (simp only: tw2 [symmetric])
    moreover have "is_space (last ws2)" using w s2 by (simp add: list_all_iff)
    ultimately have lt: "is_space (last t)" by simp
    show False
    proof (cases "st = []")
      case True
      have "last ((u @ [LB]) @ st) = LB" by (simp add: True)
      then have "last t = LB" by (simp only: tu [symmetric])
      with lt show False by simp
    next
      case False
      then have "last ((u @ [LB]) @ st) = last st" by simp
      then have "last t = last st" by (simp only: tu [symmetric])
      moreover from False ends have "\<not> is_space (last st)" by simp
      ultimately show False using lt by simp
    qed
  qed
  with tw2 have "t = ws1 @ st" by simp
  with tu have "(u @ [LB]) @ st = ws1 @ st" by (simp only:)
  then have "u @ [LB] = ws1" by (simp only: append_same_eq)
  then have "LB \<in> set ws1" by auto
  with s1 have "is_space LB" unfolding list_all_iff by (rule bspec)
  then show False by simp
qed

text \<open>
  Claim C4. A placeholder written with whitespace inside the braces, such as
  \<^verbatim>\<open>{{ name }}\<close>, is extracted as its trimmed name, but \<open>format_template\<close> with that
  name as a key leaves it unchanged, because only the literal text
  \<^verbatim>\<open>'{{' + name + '}}'\<close> is replaced: an extracted name need not be one that
  \<open>format_template\<close> substitutes in the same body. This holds for every inner text
  \<open>t\<close> without \<^verbatim>\<open>}\<close> that trimming changes: the body \<^verbatim>\<open>{{t}}\<close> has the one name
  \<open>strip t\<close>, and the mapping with the one key \<open>strip t\<close> returns the body as it is.
  Among other text and other entries the occurrence stays too, when neither \<open>t\<close> nor
  a key has a brace character and \<open>t\<close> itself (with its whitespace) is not a key.
\<close>

theorem C4_whitespace_placeholder_not_rendered:
  assumes "RB \<notin> set t" and "strip t \<noteq> t"
  shows "extract_variables (placeholder t) = {strip t} \<and>
     format_template (placeholder t) [(strip t, v)] = placeholder t \<and>
     (brace_free t \<and> list_all (\<lambda>(k, v). brace_free k \<and> k \<noteq> t) variables_dict \<longrightarrow>
        format_template (pre @ placeholder t @ post) variables_dict =
        format_template pre variables_dict @ placeholder t @ format_template post variables_dict)"
proof (intro conjI impI)
  from assms(2) have "t \<noteq> []" by auto
  with assms(1) have "occurrence (placeholder t) [] t []"
    by (simp add: occurrence_def placeholder_def)
  then have "findall (placeholder t) = t # findall []" by (rule findall_at_match)
  then show "extract_variables (placeholder t) = {strip t}"
    by (simp add: extract_variables_def)
  have "\<not> sublist (placeholder (strip t)) (placeholder t)"
    using assms by (rule stripped_placeholder_absent)
  then have "replace_scan (placeholder (strip t)) v (placeholder t) = placeholder t"
    by (rule replace_scan_no_occurrence)
  then show "format_template (placeholder t) [(strip t, v)] = placeholder t"
    by (simp add: str_replace_def)
next
  assume "brace_free t \<and> list_all (\<lambda>(k, v). brace_free k \<and> k \<noteq> t) variables_dict"
  then show "format_template (pre @ placeholder t @ post) variables_dict =
      format_template pre variables_dict @ placeholder t @ format_template post variables_dict"
    using format_template_around_placeholder [of t variables_dict pre post] by blast
qed

text \<open>
  C4 at \<^verbatim>\<open>{{ name }}\<close> with the entry \<^verbatim>\<open>name -> Ana\<close>, and at
  \<^verbatim>\<open>Hi {{ name }} in {{place}}\<close> with the entries \<^verbatim>\<open>name -> Ana\<close> and
  \<^verbatim>\<open>place -> Rio\<close>.
\<close>

theorem C4_whitespace_placeholder_not_rendered_witness:
  "RB \<notin> set (str '' name '') \<and> strip (str '' name '') \<noteq> str '' name '' \<and>
   strip (str '' name '') = str ''name'' \<and>
   extract_variables (str ''{{ name }}'') = {str ''name''} \<and>
   format_template (str ''{{ name }}'') [(str ''name'', str ''Ana'')] = str ''{{ name }}'' \<and>
   brace_free (str '' name '') \<and>
   list_all (\<lambda>(k, v). brace_free k \<and> k \<noteq> str '' name '')
     [(str ''name'', str ''Ana''), (str ''place'', str ''Rio'')] \<and>
   format_template (str ''Hi '' @ placeholder (str '' name '') @ str '' in {{place}}'')
     [(str ''name'', str ''Ana''), (str ''place'', str ''Rio'')] = str ''Hi {{ name }} in Rio''"
proof -
  have a: "RB \<notin> set (str '' name '')" by (simp add: str_def RB_def)
  have s: "strip (str '' name '') = str ''name''" by (simp add: eval_defs)
  have b: "strip (str '' name '') \<noteq> str '' name ''" by (simp add: eval_defs)
  have p: "placeholder (str '' name '') = str ''{{ name }}''" by (simp add: eval_defs)
  have c: "brace_free (str '' name '') \<and>
      list_all (\<lambda>(k, v). brace_free k \<and> k \<noteq> str '' name '')
        [(str ''name'', str ''Ana''), (str ''place'', str ''Rio'')]"
    by (simp add: brace_free_def str_def LB_def RB_def)
  have d: "format_template (str ''Hi '')
      [(str ''name'', str ''Ana''), (str ''place'', str ''Rio'')] = str ''Hi ''"
    by (simp add: eval_defs)
  have e: "format_template (str '' in {{place}}'')
      [(str ''name'', str ''Ana''), (str ''place'', str ''Rio'')] = str '' in Rio''"
    by (simp add: eval_defs)
  have f: "str ''Hi '' @ str ''{{ name }}'' @ str '' in Rio'' = str ''Hi {{ name }} in Rio''"
    by (simp add: str_def)
  note th = C4_whitespace_placeholder_not_rendered [OF a b, of "str ''Ana''"
      "[(str ''name'', str ''Ana''), (str ''place'', str ''Rio'')]" "str ''Hi ''"
      "str '' in {{place}}''"]
  from th have "extract_variables (str ''{{ name }}'') = {str ''name''} \<and>
     format_template (str ''{{ name }}'') [(str ''name'', str ''Ana'')] = str ''{{ name }}''"
    by (simp only: s p)
  moreover from th [THEN conjunct2, THEN conjunct2, THEN mp, OF c]
  have "format_template (str ''Hi '' @ placeholder (str '' name '') @ str '' in {{place}}'')
     [(str ''name'', str ''Ana''), (str ''place'', str ''Rio'')] = str ''Hi {{ name }} in Rio''"
    by (simp only: d e f p)
  ultimately show ?thesis using a b s c by (simp only: simp_thms)
qed

subsection \<open>The order of the entries\<close>

lemma flatten_append: "flatten (a @ b) = flatten a @ flatten b"
  by (induction a rule: flatten.induct) simp_all

lemma flatten_map_Txt: "flatten (map Txt v) = v"
  by (induction v) simp_all

lemma substitute_map_Txt: "substitute f (map Txt v @ ts) = v @ substitute f ts"
  by (induction v) simp_all

text \<open>On a well-formed template one replacement is a replacement of tokens.\<close>

lemma replace_scan_flatten:
  assumes k: "brace_free k"
  shows "list_all wf_token toks \<Longrightarrow>
     replace_scan (placeholder k) v (flatten toks) = flatten (expand k v toks)"
proof (induction toks rule: flatten.induct)
  case 1
  show ?case by simp
next
  case (2 c ts)
  then have "c \<noteq> LB" by simp
  then have "\<not> prefix (placeholder k) (c # flatten ts)"
    using prefix_placeholder_Cons by blast
  then have "replace_scan (placeholder k) v (c # flatten ts) =
      c # replace_scan (placeholder k) v (flatten ts)"
    by (rule replace_scan_miss)
  with 2 show ?case by simp
next
  case (3 t ts)
  then have t: "brace_free t" and ih: "replace_scan (placeholder k) v (flatten ts) =
      flatten (expand k v ts)"
    by simp_all
  show ?case
  proof (cases "t = k")
    case True
    have "replace_scan (placeholder k) v (placeholder k @ flatten ts) =
        v @ replace_scan (placeholder k) v (flatten ts)"
      by (rule replace_scan_at_occurrence) simp
    with ih show ?thesis by (simp add: True flatten_append flatten_map_Txt)
  next
    case False
    then have "k \<noteq> t" by simp
    with k t have "replace_scan (placeholder k) v (placeholder t @ flatten ts) =
        placeholder t @ replace_scan (placeholder k) v (flatten ts)"
      by (rule replace_scan_other_placeholder)
    with ih show ?thesis by (simp add: False)
  qed
qed

lemma wf_expand:
  "list_all wf_token toks \<Longrightarrow> brace_free v \<Longrightarrow> list_all wf_token (expand k v toks)"
  by (induction toks rule: flatten.induct) (auto simp: brace_free_def list_all_iff)

lemma substitute_expand:
  "substitute f (expand k v toks) = substitute (f(k \<mapsto> v)) toks"
  by (induction toks rule: flatten.induct) (simp_all add: substitute_map_Txt)

text \<open>
  On a well-formed template, with keys and values free of braces, the loop is the
  substitution of all placeholders at once.
\<close>

lemma format_template_substitute:
  "list_all wf_token toks \<Longrightarrow>
   list_all (\<lambda>(k, v). brace_free k \<and> brace_free v) m \<Longrightarrow>
   format_template (flatten toks) m = substitute (map_of m) toks"
proof (induction m arbitrary: toks)
  case Nil
  show ?case by (induction toks rule: flatten.induct) simp_all
next
  case (Cons e m)
  obtain k v where e: "e = (k, v)" by (cases e)
  from Cons.prems have k: "brace_free k" and v: "brace_free v"
    and rest: "list_all (\<lambda>(k, v). brace_free k \<and> brace_free v) m"
    by (simp_all add: e)
  have "str_replace (placeholder k) v (flatten toks) = flatten (expand k v toks)"
    using replace_scan_flatten [OF k Cons.prems(1)] by (simp add: str_replace_def)
  then have "format_template (flatten toks) (e # m) = format_template (flatten (expand k v toks)) m"
    by (simp add: e)
  also have "\<dots> = substitute (map_of m) (expand k v toks)"
    using wf_expand [OF Cons.prems(1) v] rest by (rule Cons.IH)
  also have "\<dots> = substitute (map_of (e # m)) toks"
    by (simp add: substitute_expand e)
  finally show ?case .
qed

text \<open>A dictionary has every key once, so the order of its items does not change the lookup.\<close>

lemma map_of_reordered:
  assumes "distinct (map fst m)" and "mset m' = mset m"
  shows "map_of m' = map_of m"
proof -
  from assms(2) have s: "set m' = set m" by (rule mset_eq_setD)
  from assms(2) have "mset (map fst m') = mset (map fst m)" by simp
  with assms(1) have "distinct (map fst m')" by (metis mset_eq_imp_distinct_iff)
  with assms(1) s show ?thesis by (simp add: map_of_inject_set)
qed

text \<open>
  Claim C5 says that the result is the same for every iteration order when no value
  contains the placeholder of a key. It fails on the body \<^verbatim>\<open>{{{{a}}b}}\<close> with the
  entries \<^verbatim>\<open>a -> ""\<close> and \<^verbatim>\<open>b -> "X"\<close>: neither value contains \<^verbatim>\<open>{{a}}\<close> or
  \<^verbatim>\<open>{{b}}\<close>, the order \<^verbatim>\<open>a, b\<close> gives \<^verbatim>\<open>X\<close> and the order \<^verbatim>\<open>b, a\<close> gives
  \<^verbatim>\<open>{{b}}\<close>, because replacing \<^verbatim>\<open>{{a}}\<close> joins the text around it into a new
  placeholder. Values with braces (\<^verbatim>\<open>{{b\<close> and \<^verbatim>\<open>}}\<close>) and a key with braces
  (\<^verbatim>\<open>a}}{{a\<close>) do the same on the well-formed bodies \<^verbatim>\<open>{{a}}{{c}}\<close> and
  \<^verbatim>\<open>{{a}}{{a}}\<close>.
\<close>

theorem C5_counterexample:
  "format_template (str ''{{{{a}}b}}'') [(str ''a'', []), (str ''b'', str ''X'')] = str ''X'' \<and>
   format_template (str ''{{{{a}}b}}'') [(str ''b'', str ''X''), (str ''a'', [])] = str ''{{b}}'' \<and>
   \<not> sublist (placeholder (str ''a'')) [] \<and> \<not> sublist (placeholder (str ''b'')) [] \<and>
   \<not> sublist (placeholder (str ''a'')) (str ''X'') \<and>
   \<not> sublist (placeholder (str ''b'')) (str ''X'') \<and>
   format_template (str ''{{a}}{{c}}'')
     [(str ''a'', str ''{{b''), (str ''c'', str ''}}''), (str ''b'', str ''X'')] = str ''X'' \<and>
   format_template (str ''{{a}}{{c}}'')
     [(str ''b'', str ''X''), (str ''a'', str ''{{b''), (str ''c'', str ''}}'')] = str ''{{b}}'' \<and>
   format_template (str ''{{a}}{{a}}'') [(str ''a'', []), (str ''a}}{{a'', str ''Y'')] = [] \<and>
   format_template (str ''{{a}}{{a}}'') [(str ''a}}{{a'', str ''Y''), (str ''a'', [])] = str ''Y''"
  by (simp add: eval_defs sublist_code)

text \<open>
  Claim C5, amended. For every body whose brace characters stand only in placeholders
  \<^verbatim>\<open>{{t}}\<close> with a brace-free \<open>t\<close> (the text of a list of well-formed tokens), and
  every mapping whose keys and values have no brace character, the result of
  \<open>format_template\<close> is the same for every iteration order of the entries of the
  mapping; it is the body with all placeholders substituted at once.
\<close>

theorem C5_order_independent:
  assumes "list_all wf_token toks"
    and "list_all (\<lambda>(k, v). brace_free k \<and> brace_free v) variables_dict"
    and "distinct (map fst variables_dict)"
    and "mset other_order = mset variables_dict"
  shows "format_template (flatten toks) other_order =
       format_template (flatten toks) variables_dict \<and>
     format_template (flatten toks) variables_dict = substitute (map_of variables_dict) toks"
proof -
  from assms(4) have "set other_order = set variables_dict" by (rule mset_eq_setD)
  with assms(2) have o: "list_all (\<lambda>(k, v). brace_free k \<and> brace_free v) other_order"
    by (simp add: list_all_iff)
  have "format_template (flatten toks) other_order = substitute (map_of other_order) toks"
    using assms(1) o by (rule format_template_substitute)
  also have "map_of other_order = map_of variables_dict"
    using assms(3,4) by (rule map_of_reordered)
  finally have a: "format_template (flatten toks) other_order =
      substitute (map_of variables_dict) toks" .
  have b: "format_template (flatten toks) variables_dict = substitute (map_of variables_dict) toks"
    using assms(1,2) by (rule format_template_substitute)
  from a b show ?thesis by simp
qed

text \<open>C5 at \<^verbatim>\<open>{{a}} {{b}}{{c}}\<close> with the entries \<^verbatim>\<open>a -> b\<close> and \<^verbatim>\<open>b -> X\<close>, in both orders.\<close>

theorem C5_order_independent_witness:
  "list_all wf_token [Ph (str ''a''), Txt 32, Ph (str ''b''), Ph (str ''c'')] \<and>
   list_all (\<lambda>(k, v). brace_free k \<and> brace_free v) [(str ''a'', str ''b''), (str ''b'', str ''X'')] \<and>
   distinct (map fst [(str ''a'', str ''b''), (str ''b'', str ''X'')]) \<and>
   mset [(str ''b'', str ''X''), (str ''a'', str ''b'')] =
     mset [(str ''a'', str ''b''), (str ''b'', str ''X'')] \<and>
   flatten [Ph (str ''a''), Txt 32, Ph (str ''b''), Ph (str ''c'')] = str ''{{a}} {{b}}{{c}}'' \<and>
   format_template (str ''{{a}} {{b}}{{c}}'') [(str ''b'', str ''X''), (str ''a'', str ''b'')] =
     str ''b X{{c}}'' \<and>
   format_template (str ''{{a}} {{b}}{{c}}'') [(str ''a'', str ''b''), (str ''b'', str ''X'')] =
     str ''b X{{c}}''"
proof -
  have a: "list_all wf_token [Ph (str ''a''), Txt 32, Ph (str ''b''), Ph (str ''c'')]"
    by (simp add: brace_free_def str_def LB_def RB_def)
  have b: "list_all (\<lambda>(k, v). brace_free k \<and> brace_free v)
      [(str ''a'', str ''b''), (str ''b'', str ''X'')]"
    by (simp add: brace_free_def str_def LB_def RB_def)
  have c: "distinct (map fst [(str ''a'', str ''b''), (str ''b'', str ''X'')])"
    by (simp add: str_def)
  have d: "mset [(str ''b'', str ''X''), (str ''a'', str ''b'')] =
      mset [(str ''a'', str ''b''), (str ''b'', str ''X'')]"
    by (simp add: add_mset_commute)
  have f: "flatten [Ph (str ''a''), Txt 32, Ph (str ''b''), Ph (str ''c'')] = str ''{{a}} {{b}}{{c}}''"
    by (simp add: eval_defs)
  have s: "substitute (map_of [(str ''a'', str ''b''), (str ''b'', str ''X'')])
      [Ph (str ''a''), Txt 32, Ph (str ''b''), Ph (str ''c'')] = str ''b X{{c}}''"
    by (simp add: eval_defs)
  from C5_order_independent [OF a b c d]
  have "format_template (str ''{{a}} {{b}}{{c}}'') [(str ''b'', str ''X''), (str ''a'', str ''b'')] =
      str ''b X{{c}}'' \<and>
    format_template (str ''{{a}} {{b}}{{c}}'') [(str ''a'', str ''b''), (str ''b'', str ''X'')] =
      str ''b X{{c}}''"
    by (simp only: f s)
  with a b c d f show ?thesis by (simp only: simp_thms)
qed

subsection \<open>Totality\<close>

text \<open>
  Every input is in the domain of the recursion of each scan: every chain of recursive
  calls is finite, since each call is on a shorter text.
\<close>

lemma length_drop_dropWhile: "length (drop 2 (dropWhile P (drop 2 (c # cs)))) < length (c # cs)"
proof -
  have "length (dropWhile P (drop 2 (c # cs))) \<le> length (drop 2 (c # cs))"
    by (rule length_dropWhile_le)
  then show ?thesis by simp
qed

lemma findall_dom_all: "findall_dom s"
proof (induction s rule: length_induct)
  case (1 s)
  show ?case
  proof (rule accpI)
    fix y assume "findall_rel y s"
    then have "length y < length s"
      by (cases rule: findall_rel.cases) (simp_all only: length_drop_dropWhile, simp)
    with 1 show "findall_dom y" by blast
  qed
qed

lemma replace_scan_dom_all: "replace_scan_dom (old, new, s)"
proof (induction s rule: length_induct)
  case (1 s)
  show ?case
  proof (rule accpI)
    fix y assume "replace_scan_rel y (old, new, s)"
    then have "\<exists>s'. y = (old, new, s') \<and> length s' < length s"
      by (cases rule: replace_scan_rel.cases) (auto simp: neq_Nil_conv)
    with 1 show "replace_scan_dom y" by blast
  qed
qed

lemma format_template_empty: "format_template [] variables_dict = []"
  by (induction variables_dict) (auto simp: str_replace_def)

text \<open>
  Claim C10. Both operations are total, with no failure path: for every string (the
  empty string too) and every mapping from strings to strings, \<open>extract_variables\<close>
  returns a finite set of strings, possibly empty, and \<open>format_template\<close> returns a
  string. Neither function has an error result or a state. Their two scans end on every
  input: every input is in the domain of the recursion of \<open>findall\<close> and of
  \<open>replace_scan\<close>; the loop of \<open>format_template\<close> runs once for each entry of the
  mapping. On the empty string the results are the empty set and the empty string.
\<close>

theorem C10_total:
  "findall_dom template \<and> replace_scan_dom (old, new, formatted) \<and>
   finite (extract_variables template) \<and>
   extract_variables [] = {} \<and> format_template [] variables_dict = []"
  using findall_dom_all [of template] replace_scan_dom_all [of old new formatted]
  by (simp add: extract_variables_def format_template_empty)

text \<open>C10 at \<^verbatim>\<open>{{a}} {{\<close>.\<close>

theorem C10_total_witness:
  "findall_dom (str ''{{a}} {{'') \<and>
   replace_scan_dom (str ''{{a}}'', [], str ''{{a}} {{'') \<and>
   finite (extract_variables (str ''{{a}} {{'')) \<and>
   extract_variables [] = {} \<and> format_template [] [(str ''a'', str ''b'')] = []"
  by (rule C10_total)

end
